theory Spec2Isabelle
  imports Main "HOL-Library.AList"
begin

section \<open>The keyed resource pool of \<open>src/v1/internal/pool.js\<close>\<close>

text \<open>
  The class \<open>Pool\<close> keeps, per key, an array of idle resources and is configured with
  three callbacks and a bound. The embedding splits the object into its immutable
  configuration (the fields \<open>_create\<close>, \<open>_destroy\<close>, \<open>_validate\<close>, \<open>_maxIdle\<close>) and its
  mutable part (the field \<open>_pools\<close>).

  \<^item> The callbacks are code of the caller and may have effects of their own (a validator
    asks a connection whether it is still open, a factory opens a socket). They are
    functions on a state \<open>'w\<close> of the caller's world, which every operation threads
    through the calls it makes, in the order in which it makes them.
  \<^item> \<open>_create\<close> is called with the key and with \<open>this._release\<close>, the release function
    bound to this pool. The second argument is the same at every call, so the factory of
    the model takes the key only, and a resource that invokes its release callback is
    an application of \<open>release\<close>.
  \<^item> \<open>_create\<close> may throw; it returns \<open>Inl e\<close> for the exception \<open>e\<close>. \<open>_validate\<close> and
    \<open>_destroy\<close> are taken not to throw, and no callback calls back into the pool while an
    operation runs.
  \<^item> \<open>_pools\<close> is a plain object, \<open>{}\<close>, used as a dictionary. Its keys are property
    names, strings. Its own properties are an association list in the order in which
    they were added; behind them stands \<open>Object.prototype\<close>, whose properties the object
    inherits: \<open>this._pools[key]\<close> and \<open>key in this._pools\<close> see them too.
  \<^item> The array of a key is a list in array order: \<open>push\<close> appends at the end and \<open>pop\<close>
    removes the last element.
  \<^item> \<open>_maxIdle\<close> is a number of resources, a natural number.
  \<^item> Every call of a callback is recorded, with what it returned, in the ghost field
    \<open>calls\<close> (oldest call first). The code has no such field; it is what statements
    about "calls destroy" and "calls create" are about.
\<close>

datatype ('r, 'e) call =
    Create string "'e + 'r"
  | Validate 'r bool
  | Destroy 'r

record ('r, 'w, 'e) Pool =
  create :: "string \<Rightarrow> 'w \<Rightarrow> ('e + 'r) \<times> 'w"
  destroy :: "'r \<Rightarrow> 'w \<Rightarrow> 'w"
  validate :: "'r \<Rightarrow> 'w \<Rightarrow> bool \<times> 'w"
  maxIdle :: nat

record ('r, 'w, 'e) state =
  pools :: "(string \<times> 'r list) list"
  world :: 'w
  calls :: "('r, 'e) call list"

text \<open>
  What an operation throws: the \<open>TypeError\<close> of the language, for a call of a method
  that the value does not have, or what \<open>_create\<close> threw.
\<close>

datatype 'e error =
    TypeError
  | Thrown 'e

text \<open>
  The constructor: \<open>this._pools = {}\<close>, and the defaults of its optional parameters,
  \<open>destroy = (() => true)\<close>, \<open>validate = (() => true)\<close> and \<open>maxIdle = 50\<close>.
\<close>

definition init :: "'w \<Rightarrow> ('r, 'w, 'e) state" where
  "init w = \<lparr>pools = [], world = w, calls = []\<rparr>"

definition default_destroy :: "'r \<Rightarrow> 'w \<Rightarrow> 'w" where
  "default_destroy resource w = w"

definition default_validate :: "'r \<Rightarrow> 'w \<Rightarrow> bool \<times> 'w" where
  "default_validate resource w = (True, w)"

definition default_maxIdle :: nat where
  "default_maxIdle = 50"

subsection \<open>The object \<open>_pools\<close>\<close>

text \<open>
  The properties of \<open>Object.prototype\<close>, which the language defines, by what the pool
  reads of them. Eleven are functions, of which the pool reads the \<open>length\<close> (the number
  of declared parameters; \<open>constructor\<close> is the function \<open>Object\<close>); \<open>__proto__\<close> reads
  as \<open>Object.prototype\<close> itself, an object without a \<open>length\<close>. All of them are truthy
  and none has a method \<open>pop\<close> or \<open>push\<close>.
\<close>

datatype inherited =
    Function nat
  | Prototype

definition Object_prototype :: "string \<Rightarrow> inherited option" where
  "Object_prototype name =
     map_of
       [(''constructor'', Function 1),
        (''hasOwnProperty'', Function 1),
        (''isPrototypeOf'', Function 1),
        (''propertyIsEnumerable'', Function 1),
        (''toLocaleString'', Function 0),
        (''toString'', Function 0),
        (''valueOf'', Function 0),
        (''__defineGetter__'', Function 2),
        (''__defineSetter__'', Function 2),
        (''__lookupGetter__'', Function 1),
        (''__lookupSetter__'', Function 1),
        (''__proto__'', Prototype)] name"

text \<open>
  The value of \<open>this._pools[key]\<close>: the array of an own property, else the inherited
  value, else \<open>undefined\<close>. Of the three only \<open>undefined\<close> is falsy.
\<close>

datatype 'r property =
    Undefined
  | Array "'r list"
  | Inherited inherited

definition lookup :: "(string \<times> 'r list) list \<Rightarrow> string \<Rightarrow> 'r property" where
  "lookup ps key =
     (case map_of ps key of
        Some pool \<Rightarrow> Array pool
      | None \<Rightarrow> (case Object_prototype key of Some v \<Rightarrow> Inherited v | None \<Rightarrow> Undefined))"

text \<open>The value of \<open>pool.length\<close>, if the value has the property.\<close>

fun inherited_length :: "inherited \<Rightarrow> nat option" where
  "inherited_length (Function n) = Some n"
| "inherited_length Prototype = None"

fun js_length :: "'r property \<Rightarrow> nat option" where
  "js_length (Array pool) = Some (length pool)"
| "js_length (Inherited v) = inherited_length v"
| "js_length Undefined = None"

text \<open>
  The condition \<open>pool.length\<close> of the loops, and the test \<open>pool.length >= this._maxIdle\<close>:
  \<open>undefined\<close> is falsy, and \<open>undefined >= n\<close> is false for every number \<open>n\<close>.
\<close>

fun truthy :: "nat option \<Rightarrow> bool" where
  "truthy (Some n) = (n \<noteq> 0)"
| "truthy None = False"

fun at_least :: "nat option \<Rightarrow> nat \<Rightarrow> bool" where
  "at_least (Some n) m = (n \<ge> m)"
| "at_least None m = False"

text \<open>
  \<open>Object.keys(this._pools)\<close>: the names of the own properties, those that are array
  indices first, in ascending numeric order, then the others in the order in which they
  were added. An array index is the decimal numeral, without leading zeros, of a number
  up to \<open>2\<^sup>3\<^sup>2 - 2\<close>.
\<close>

definition digit :: "char \<Rightarrow> bool" where
  "digit c = (c \<in> set ''0123456789'')"

definition decimal :: "string \<Rightarrow> int" where
  "decimal cs = foldl (\<lambda>n c. 10 * n + (of_char c - 48)) 0 cs"

definition array_index :: "string \<Rightarrow> bool" where
  "array_index cs =
     (cs \<noteq> [] \<and> list_all digit cs \<and> (cs = ''0'' \<or> hd cs \<noteq> CHR ''0'') \<and>
      decimal cs \<le> 4294967294)"

definition own_keys :: "(string \<times> 'r list) list \<Rightarrow> string list" where
  "own_keys ps =
     sort_key decimal (filter array_index (map fst ps)) @
     filter (\<lambda>key. \<not> array_index key) (map fst ps)"

subsection \<open>Calling the callbacks\<close>

definition call_validate ::
  "('r, 'w, 'e) Pool \<Rightarrow> 'r \<Rightarrow> ('r, 'w, 'e) state \<Rightarrow> bool \<times> ('r, 'w, 'e) state" where
  "call_validate P resource s =
     (let (ok, w) = validate P resource (world s)
      in (ok, s\<lparr>world := w, calls := calls s @ [Validate resource ok]\<rparr>))"

definition call_destroy ::
  "('r, 'w, 'e) Pool \<Rightarrow> 'r \<Rightarrow> ('r, 'w, 'e) state \<Rightarrow> ('r, 'w, 'e) state" where
  "call_destroy P resource s =
     s\<lparr>world := destroy P resource (world s), calls := calls s @ [Destroy resource]\<rparr>"

text \<open>What the caller of \<open>_create\<close> sees: the resource, or the exception thrown.\<close>

fun outcome :: "'e + 'r \<Rightarrow> 'e error + 'r" where
  "outcome (Inl e) = Inl (Thrown e)"
| "outcome (Inr resource) = Inr resource"

definition call_create ::
  "('r, 'w, 'e) Pool \<Rightarrow> string \<Rightarrow> ('r, 'w, 'e) state \<Rightarrow> ('e error + 'r) \<times> ('r, 'w, 'e) state" where
  "call_create P key s =
     (let (res, w) = create P key (world s)
      in (outcome res, s\<lparr>world := w, calls := calls s @ [Create key res]\<rparr>))"

subsection \<open>\<open>acquire\<close>\<close>

text \<open>
  The loop \<open>while (pool.length) { resource = pool.pop(); if (this._validate(resource))
  return resource; else this._destroy(resource) }\<close> on an array \<open>pool\<close>. It returns the
  resource found, if any, together with what is left of the array.
\<close>

function acquire_loop ::
  "('r, 'w, 'e) Pool \<Rightarrow> 'r list \<Rightarrow> ('r, 'w, 'e) state
     \<Rightarrow> 'r option \<times> 'r list \<times> ('r, 'w, 'e) state" where
  "acquire_loop P pool s =
     (if pool = [] then (None, pool, s)
      else
        let resource = last pool;
            pool' = butlast pool;
            (ok, s1) = call_validate P resource s
        in if ok then (Some resource, pool', s1)
           else acquire_loop P pool' (call_destroy P resource s1))"
  by pat_completeness auto
termination
  by (relation "measure (\<lambda>(P, pool, s). length pool)") auto

declare acquire_loop.simps [simp del]

text \<open>
  \<open>acquire(key)\<close>. When \<open>this._pools[key]\<close> is \<open>undefined\<close>, the key is given the empty
  array. The local \<open>pool\<close> is then either the array stored under \<open>key\<close> itself, so that
  every \<open>pop\<close> of the loop is a change of \<open>_pools[key]\<close> and the array the loop leaves is
  written back under the key; or it is an inherited value: with a truthy \<open>length\<close> the
  loop is entered and \<open>pool.pop()\<close> throws, there being no such method, and otherwise the
  loop is skipped and \<open>_create\<close> is called, no property having been added. The result is
  the resource returned, or \<open>Inl\<close> of what was thrown.
\<close>

definition acquire ::
  "('r, 'w, 'e) Pool \<Rightarrow> string \<Rightarrow> ('r, 'w, 'e) state
     \<Rightarrow> ('e error + 'r) \<times> ('r, 'w, 'e) state" where
  "acquire P key s =
     (let (pool, s0) =
            (if lookup (pools s) key = Undefined
             then (Array [], s\<lparr>pools := AList.update key [] (pools s)\<rparr>)
             else (lookup (pools s) key, s))
      in case pool of
           Array xs \<Rightarrow>
             (let (found, xs', s1) = acquire_loop P xs s0;
                  s2 = s1\<lparr>pools := AList.update key xs' (pools s1)\<rparr>
              in case found of
                   Some resource \<Rightarrow> (Inr resource, s2)
                 | None \<Rightarrow> call_create P key s2)
         | _ \<Rightarrow>
             if truthy (js_length pool) then (Inl TypeError, s0)
             else call_create P key s0)"

subsection \<open>\<open>purge\<close>, \<open>purgeAll\<close>, \<open>has\<close>\<close>

text \<open>The loop \<open>while (pool.length) { resource = pool.pop(); this._destroy(resource) }\<close>.\<close>

function purge_loop ::
  "('r, 'w, 'e) Pool \<Rightarrow> 'r list \<Rightarrow> ('r, 'w, 'e) state
     \<Rightarrow> 'r list \<times> ('r, 'w, 'e) state" where
  "purge_loop P pool s =
     (if pool = [] then (pool, s)
      else purge_loop P (butlast pool) (call_destroy P (last pool) s))"
  by pat_completeness auto
termination
  by (relation "measure (\<lambda>(P, pool, s). length pool)") auto

declare purge_loop.simps [simp del]

text \<open>
  \<open>purge(key)\<close>: \<open>pool = this._pools[key] || []\<close>, the loop, then
  \<open>delete this._pools[key]\<close>, which drops the emptied array with the key and does nothing
  when the key is no own property. On an inherited value with a truthy \<open>length\<close> the
  loop is entered and \<open>pool.pop()\<close> throws before the \<open>delete\<close>. The result is what was
  thrown, if anything.
\<close>

definition purge ::
  "('r, 'w, 'e) Pool \<Rightarrow> string \<Rightarrow> ('r, 'w, 'e) state
     \<Rightarrow> 'e error option \<times> ('r, 'w, 'e) state" where
  "purge P key s =
     (let pool = (if lookup (pools s) key = Undefined then Array [] else lookup (pools s) key)
      in case pool of
           Array xs \<Rightarrow>
             (let (xs', s1) = purge_loop P xs s
              in (None, s1\<lparr>pools := AList.delete key (pools s1)\<rparr>))
         | _ \<Rightarrow>
             if truthy (js_length pool) then (Some TypeError, s)
             else (None, s\<lparr>pools := AList.delete key (pools s)\<rparr>))"

text \<open>
  \<open>purgeAll()\<close>: \<open>Object.keys(this._pools).forEach(key => this.purge(key))\<close>. The keys
  are listed once, before the first \<open>purge\<close>; an exception ends the iteration.
\<close>

fun purge_each ::
  "('r, 'w, 'e) Pool \<Rightarrow> string list \<Rightarrow> ('r, 'w, 'e) state
     \<Rightarrow> 'e error option \<times> ('r, 'w, 'e) state" where
  "purge_each P [] s = (None, s)"
| "purge_each P (key # keys) s =
     (case purge P key s of
        (Some e, s') \<Rightarrow> (Some e, s')
      | (None, s') \<Rightarrow> purge_each P keys s')"

definition purgeAll ::
  "('r, 'w, 'e) Pool \<Rightarrow> ('r, 'w, 'e) state \<Rightarrow> 'e error option \<times> ('r, 'w, 'e) state" where
  "purgeAll P s = purge_each P (own_keys (pools s)) s"

text \<open>\<open>has(key)\<close>: \<open>key in this._pools\<close>, true of own and of inherited properties.\<close>

definition has :: "string \<Rightarrow> ('r, 'w, 'e) state \<Rightarrow> bool" where
  "has key s = (key \<in> set (map fst (pools s)) \<or> Object_prototype key \<noteq> None)"

subsection \<open>\<open>_release\<close>\<close>

text \<open>
  \<open>_release(key, resource)\<close>, the function handed to \<open>_create\<close> as the release callback.
  The test \<open>pool.length >= this._maxIdle || !this._validate(resource)\<close> is short-circuit:
  a full list destroys the resource without validating it. On an inherited value the
  test is made as on an array, and \<open>pool.push(resource)\<close> throws, there being no such
  method. The result is what was thrown, if anything.
\<close>

definition release ::
  "('r, 'w, 'e) Pool \<Rightarrow> string \<Rightarrow> 'r \<Rightarrow> ('r, 'w, 'e) state
     \<Rightarrow> 'e error option \<times> ('r, 'w, 'e) state" where
  "release P key resource s =
     (let pool = lookup (pools s) key
      in if pool = Undefined then (None, call_destroy P resource s)
         else if at_least (js_length pool) (maxIdle P) then (None, call_destroy P resource s)
         else
           let (ok, s1) = call_validate P resource s
           in if \<not> ok then (None, call_destroy P resource s1)
              else (case pool of
                      Array xs \<Rightarrow>
                        (None, s1\<lparr>pools := AList.update key (xs @ [resource]) (pools s1)\<rparr>)
                    | _ \<Rightarrow> (Some TypeError, s1)))"

subsection \<open>Runs of operations\<close>

datatype 'r op =
    Acquire string
  | Release string 'r
  | Purge string
  | PurgeAll
  | Has string

text \<open>
  The state an operation leaves, whether it returns or throws; what it returns or throws
  is dropped.
\<close>

fun exec :: "('r, 'w, 'e) Pool \<Rightarrow> 'r op \<Rightarrow> ('r, 'w, 'e) state \<Rightarrow> ('r, 'w, 'e) state" where
  "exec P (Acquire key) s = snd (acquire P key s)"
| "exec P (Release key resource) s = snd (release P key resource s)"
| "exec P (Purge key) s = snd (purge P key s)"
| "exec P PurgeAll s = snd (purgeAll P s)"
| "exec P (Has key) s = s"

definition run :: "('r, 'w, 'e) Pool \<Rightarrow> 'r op list \<Rightarrow> ('r, 'w, 'e) state \<Rightarrow> ('r, 'w, 'e) state" where
  "run P ops s = fold (exec P) ops s"

inductive reachable :: "('r, 'w, 'e) Pool \<Rightarrow> ('r, 'w, 'e) state \<Rightarrow> bool"
  for P :: "('r, 'w, 'e) Pool" where
  reachable_init: "reachable P (init w)"
| reachable_exec: "reachable P s \<Longrightarrow> reachable P (exec P op s)"

subsection \<open>Vocabulary of the properties\<close>

text \<open>The idle resources of a key: the array of the own property, if there is one.\<close>

definition idle :: "string \<Rightarrow> ('r, 'w, 'e) state \<Rightarrow> 'r list" where
  "idle key s = (case map_of (pools s) key of None \<Rightarrow> [] | Some pool \<Rightarrow> pool)"

text \<open>The calls made for resources that are popped and found invalid, in the order popped.\<close>

definition evictions :: "'r list \<Rightarrow> ('r, 'e) call list" where
  "evictions rs = concat (map (\<lambda>x. [Validate x False, Destroy x]) rs)"

text \<open>
  A recorded sequence of calls is replayed on the callbacks from a given world: the result
  is the world they leave, provided every call returned what the record says.
\<close>

fun replay :: "('r, 'w, 'e) Pool \<Rightarrow> ('r, 'e) call list \<Rightarrow> 'w \<Rightarrow> 'w option" where
  "replay P [] w = Some w"
| "replay P (Create key res # cs) w =
     (let (res', w') = create P key w in if res' = res then replay P cs w' else None)"
| "replay P (Validate resource ok # cs) w =
     (let (ok', w') = validate P resource w in if ok' = ok then replay P cs w' else None)"
| "replay P (Destroy resource # cs) w = replay P cs (destroy P resource w)"

text \<open>The bound on the idle lists, for every own property of \<open>_pools\<close>.\<close>

definition bounded :: "('r, 'w, 'e) Pool \<Rightarrow> ('r, 'w, 'e) state \<Rightarrow> bool" where
  "bounded P s = list_all (\<lambda>(key, pool). length pool \<le> maxIdle P) (pools s)"


text \<open>
  What an operation that took \<open>s\<close> to \<open>s'\<close> did as far as one key and the callbacks are
  concerned: the list it left for the key, the calls it made, the world it left.
\<close>

definition observe ::
  "string \<Rightarrow> ('r, 'w, 'e) state \<Rightarrow> ('r, 'w, 'e) state
     \<Rightarrow> 'r list option \<times> ('r, 'e) call list \<times> 'w" where
  "observe key s s' = (map_of (pools s') key, drop (length (calls s)) (calls s'), world s')"

subsection \<open>Two pools to run\<close>

text \<open>
  A pool over numbered resources: the factory hands out the next number of a counter,
  the other callbacks are the defaults.
\<close>

definition counter_pool :: "nat \<Rightarrow> (nat, nat, string) Pool" where
  "counter_pool n =
     \<lparr>create = (\<lambda>key w. (Inr w, Suc w)),
      destroy = default_destroy,
      validate = default_validate,
      maxIdle = n\<rparr>"


lemmas eval_defs =
  run_def acquire_def acquire_loop.simps purge_def purge_loop.simps purgeAll_def
  release_def call_validate_def call_destroy_def call_create_def init_def has_def
  default_destroy_def default_validate_def default_maxIdle_def
  lookup_def Object_prototype_def own_keys_def array_index_def digit_def decimal_def

section \<open>Properties of the operations\<close>

subsection \<open>The callbacks\<close>

lemma call_validate_simps [simp]:
  "fst (call_validate P r s) = fst (validate P r (world s))"
  "pools (snd (call_validate P r s)) = pools s"
  "world (snd (call_validate P r s)) = snd (validate P r (world s))"
  "calls (snd (call_validate P r s)) = calls s @ [Validate r (fst (validate P r (world s)))]"
  by (simp_all add: call_validate_def split: prod.splits)

lemma call_destroy_simps [simp]:
  "pools (call_destroy P r s) = pools s"
  "world (call_destroy P r s) = destroy P r (world s)"
  "calls (call_destroy P r s) = calls s @ [Destroy r]"
  by (simp_all add: call_destroy_def)

lemma call_create_simps [simp]:
  "fst (call_create P key s) = outcome (fst (create P key (world s)))"
  "pools (snd (call_create P key s)) = pools s"
  "world (snd (call_create P key s)) = snd (create P key (world s))"
  "calls (snd (call_create P key s)) = calls s @ [Create key (fst (create P key (world s)))]"
  by (simp_all add: call_create_def split: prod.splits)

lemma outcome_simps [simp]:
  "(outcome res = Inr r) = (res = Inr r)"
  "(outcome res = Inl (Thrown e)) = (res = Inl e)"
  "outcome res \<noteq> Inl TypeError"
  by (cases res; simp)+

lemma replay_append:
  "replay P (cs @ ds) w = (case replay P cs w of None \<Rightarrow> None | Some w' \<Rightarrow> replay P ds w')"
  by (induction P cs w rule: replay.induct) (auto split: prod.splits)

lemma evictions_simps [simp]:
  "evictions [] = []"
  "evictions (x # xs) = Validate x False # Destroy x # evictions xs"
  "evictions (xs @ ys) = evictions xs @ evictions ys"
  by (simp_all add: evictions_def)

subsection \<open>Reading \<open>_pools\<close>\<close>

lemma lookup_own: "map_of ps key = Some pool \<Longrightarrow> lookup ps key = Array pool"
  by (simp add: lookup_def)

lemma lookup_undefined:
  "map_of ps key = None \<Longrightarrow> Object_prototype key = None \<Longrightarrow> lookup ps key = Undefined"
  by (simp add: lookup_def)

lemma lookup_inherited:
  "map_of ps key = None \<Longrightarrow> Object_prototype key = Some v \<Longrightarrow> lookup ps key = Inherited v"
  by (simp add: lookup_def)

lemma lookup_Undefined_iff:
  "(lookup ps key = Undefined) = (map_of ps key = None \<and> Object_prototype key = None)"
  by (simp add: lookup_def split: option.splits)

lemma lookup_cong: "map_of ps key = map_of qs key \<Longrightarrow> lookup ps key = lookup qs key"
  by (simp add: lookup_def)

lemma has_lookup: "has key s = (lookup (pools s) key \<noteq> Undefined)"
  by (auto simp: has_def lookup_Undefined_iff map_of_eq_None_iff)

lemma has_map_of: "has k s = (map_of (pools s) k \<noteq> None \<or> Object_prototype k \<noteq> None)"
  by (simp add: has_lookup lookup_Undefined_iff)

lemma delete_absent: "map_of al k = None \<Longrightarrow> AList.delete k al = al"
  by (simp add: map_of_eq_None_iff)

subsection \<open>What \<open>acquire\<close> does\<close>

text \<open>
  The loop splits the array: the resources it rejected were on top, the resource it found
  was below them, and what it keeps was below that. Induction on the array from its last
  element, the one popped first.
\<close>

lemma acquire_loop_cases:
  "acquire_loop P pool s = (found, pool', s') \<Longrightarrow>
   \<exists>new. calls s' = calls s @ new \<and> replay P new (world s) = Some (world s') \<and>
     pools s' = pools s \<and>
     ((\<exists>r rejected. found = Some r \<and> pool = pool' @ r # rev rejected \<and>
          new = evictions rejected @ [Validate r True]) \<or>
      (found = None \<and> pool' = [] \<and> new = evictions (rev pool)))"
proof (induction pool arbitrary: s rule: rev_induct)
  case Nil
  then show ?case by (simp add: acquire_loop.simps)
next
  case (snoc x xs)
  obtain ok s1 where v: "call_validate P x s = (ok, s1)"
    by (cases "call_validate P x s")
  then have s1: "s1 = s\<lparr>world := snd (validate P x (world s)), calls := calls s @ [Validate x ok]\<rparr>"
    and ok: "ok = fst (validate P x (world s))"
    by (auto simp: call_validate_def split: prod.splits)
  show ?case
  proof (cases ok)
    case True
    with snoc.prems v have "found = Some x" "pool' = xs" "s' = s1"
      by (simp_all add: acquire_loop.simps)
    with True s1 ok show ?thesis
      by (auto split: prod.splits intro!: exI[of _ "[]"])
  next
    case False
    with snoc.prems v have "acquire_loop P xs (call_destroy P x s1) = (found, pool', s')"
      by (simp add: acquire_loop.simps)
    from snoc.IH[OF this] obtain new where
      n: "calls s' = calls (call_destroy P x s1) @ new"
         "replay P new (world (call_destroy P x s1)) = Some (world s')"
         "pools s' = pools (call_destroy P x s1)"
         "(\<exists>r rejected. found = Some r \<and> xs = pool' @ r # rev rejected \<and>
             new = evictions rejected @ [Validate r True]) \<or>
          (found = None \<and> pool' = [] \<and> new = evictions (rev xs))"
      by blast
    let ?new = "Validate x False # Destroy x # new"
    have a: "calls s' = calls s @ ?new"
      using n(1) s1 False by simp
    have b: "replay P ?new (world s) = Some (world s')"
      using n(2) s1 False ok by (auto split: prod.splits)
    have c: "pools s' = pools s"
      using n(3) s1 by simp
    from n(4) have d:
      "(\<exists>r rejected. found = Some r \<and> xs @ [x] = pool' @ r # rev rejected \<and>
          ?new = evictions rejected @ [Validate r True]) \<or>
       (found = None \<and> pool' = [] \<and> ?new = evictions (rev (xs @ [x])))"
    proof
      assume "\<exists>r rejected. found = Some r \<and> xs = pool' @ r # rev rejected \<and>
          new = evictions rejected @ [Validate r True]"
      then obtain r rejected where "found = Some r" "xs = pool' @ r # rev rejected"
          "new = evictions rejected @ [Validate r True]"
        by blast
      then have "found = Some r \<and> xs @ [x] = pool' @ r # rev (x # rejected) \<and>
          ?new = evictions (x # rejected) @ [Validate r True]"
        by simp
      then show ?thesis by blast
    next
      assume "found = None \<and> pool' = [] \<and> new = evictions (rev xs)"
      then show ?thesis by simp
    qed
    from a b c d show ?thesis by blast
  qed
qed

text \<open>A key that is an own property, or no inherited name, is served from its array.\<close>

lemma acquire_array:
  assumes "map_of (pools s) key \<noteq> None \<or> Object_prototype key = None"
  shows "acquire P key s =
     (let s0 = (if map_of (pools s) key = None
                then s\<lparr>pools := AList.update key [] (pools s)\<rparr> else s);
          (found, xs', s1) = acquire_loop P (idle key s) s0;
          s2 = s1\<lparr>pools := AList.update key xs' (pools s1)\<rparr>
      in case found of
           Some resource \<Rightarrow> (Inr resource, s2)
         | None \<Rightarrow> call_create P key s2)"
proof (cases "map_of (pools s) key")
  case None
  with assms have "lookup (pools s) key = Undefined" by (simp add: lookup_undefined)
  with None show ?thesis by (simp add: acquire_def idle_def)
next
  case (Some pool)
  then have "lookup (pools s) key = Array pool" by (rule lookup_own)
  with Some show ?thesis by (simp add: acquire_def idle_def)
qed

lemma acquire_inherited:
  assumes "map_of (pools s) key = None" "Object_prototype key = Some v"
  shows "acquire P key s =
     (if truthy (inherited_length v) then (Inl TypeError, s)
      else call_create P key s)"
  using lookup_inherited[OF assms] by (simp add: acquire_def)

lemma acquire_cases:
  assumes ord: "map_of (pools s) key \<noteq> None \<or> Object_prototype key = None"
  shows "\<exists>new. calls (snd (acquire P key s)) = calls s @ new \<and>
     replay P new (world s) = Some (world (snd (acquire P key s))) \<and>
     ((\<exists>keep r rejected.
         idle key s = keep @ r # rev rejected \<and>
         fst (acquire P key s) = Inr r \<and>
         pools (snd (acquire P key s)) = AList.update key keep (pools s) \<and>
         new = evictions rejected @ [Validate r True]) \<or>
      (\<exists>res.
         fst (acquire P key s) = outcome res \<and>
         pools (snd (acquire P key s)) = AList.update key [] (pools s) \<and>
         new = evictions (rev (idle key s)) @ [Create key res]))"
proof -
  define pool where "pool = idle key s"
  define s0 where "s0 = (if map_of (pools s) key = None
      then s\<lparr>pools := AList.update key [] (pools s)\<rparr> else s)"
  have s0: "world s0 = world s" "calls s0 = calls s"
    by (simp_all add: s0_def)
  obtain found pool' s1 where l: "acquire_loop P pool s0 = (found, pool', s1)"
    by (cases "acquire_loop P pool s0")
  define s2 where "s2 = s1\<lparr>pools := AList.update key pool' (pools s1)\<rparr>"
  have acq: "acquire P key s =
      (case found of Some resource \<Rightarrow> (Inr resource, s2) | None \<Rightarrow> call_create P key s2)"
    using l unfolding acquire_array[OF ord] pool_def s0_def s2_def by (simp add: Let_def)
  from acquire_loop_cases[OF l] obtain new where
    n: "calls s1 = calls s0 @ new" "replay P new (world s0) = Some (world s1)"
       "pools s1 = pools s0"
       "(\<exists>r rejected. found = Some r \<and> pool = pool' @ r # rev rejected \<and>
           new = evictions rejected @ [Validate r True]) \<or>
        (found = None \<and> pool' = [] \<and> new = evictions (rev pool))"
    by blast
  have p2: "pools s2 = AList.update key pool' (pools s)"
    using n(3) by (simp add: s2_def s0_def)
  from n(4) show ?thesis
  proof
    assume "\<exists>r rejected. found = Some r \<and> pool = pool' @ r # rev rejected \<and>
        new = evictions rejected @ [Validate r True]"
    then obtain r rejected where f: "found = Some r" "pool = pool' @ r # rev rejected"
        "new = evictions rejected @ [Validate r True]"
      by blast
    have "acquire P key s = (Inr r, s2)" using acq f(1) by simp
    then have "calls (snd (acquire P key s)) = calls s @ new"
      "replay P new (world s) = Some (world (snd (acquire P key s)))"
      "idle key s = pool' @ r # rev rejected \<and>
         fst (acquire P key s) = Inr r \<and>
         pools (snd (acquire P key s)) = AList.update key pool' (pools s) \<and>
         new = evictions rejected @ [Validate r True]"
      using n(1,2) s0 p2 f by (simp_all add: s2_def pool_def)
    then show ?thesis by blast
  next
    assume e: "found = None \<and> pool' = [] \<and> new = evictions (rev pool)"
    then have a: "acquire P key s = call_create P key s2" using acq by simp
    let ?res = "fst (create P key (world s2))"
    let ?new = "new @ [Create key ?res]"
    have "calls (snd (acquire P key s)) = calls s @ ?new"
      using a n(1) s0 by (simp add: s2_def)
    moreover have "replay P ?new (world s) = Some (world (snd (acquire P key s)))"
      using a n(2) s0 by (simp add: replay_append s2_def split: prod.splits)
    moreover have "fst (acquire P key s) = outcome ?res \<and>
        pools (snd (acquire P key s)) = AList.update key [] (pools s) \<and>
        ?new = evictions (rev (idle key s)) @ [Create key ?res]"
      using a p2 e by (simp add: pool_def)
    ultimately show ?thesis by blast
  qed
qed

lemma acquire_pools:
  "pools (snd (acquire P key s)) = pools s \<or>
   (\<exists>keep. pools (snd (acquire P key s)) = AList.update key keep (pools s) \<and>
      length keep \<le> length (idle key s) \<and>
      (map_of (pools s) key \<noteq> None \<or> Object_prototype key = None))"
proof (cases "map_of (pools s) key \<noteq> None \<or> Object_prototype key = None")
  case True
  from acquire_cases[OF True, of P] True show ?thesis by auto
next
  case False
  then obtain v where "map_of (pools s) key = None" "Object_prototype key = Some v" by auto
  from acquire_inherited[OF this, of P] show ?thesis by (simp split: if_splits)
qed

lemma acquire_top_valid:
  "map_of (pools s) key = Some (keep @ [r]) \<Longrightarrow> fst (validate P r (world s)) \<Longrightarrow>
   acquire P key s =
     (Inr r, (snd (call_validate P r s))\<lparr>pools := AList.update key keep (pools s)\<rparr>)"
  by (cases "validate P r (world s)")
     (simp add: acquire_array idle_def acquire_loop.simps[of P "keep @ [r]"] call_validate_def)

subsection \<open>What \<open>release\<close> and \<open>purge\<close> do\<close>


lemma release_full:
  "map_of (pools s) key = Some pool \<Longrightarrow> maxIdle P \<le> length pool \<Longrightarrow>
   release P key r s = (None, call_destroy P r s)"
  by (simp add: release_def lookup_own)

lemma release_invalid:
  "map_of (pools s) key = Some pool \<Longrightarrow> length pool < maxIdle P \<Longrightarrow>
   \<not> fst (validate P r (world s)) \<Longrightarrow>
   release P key r s = (None, call_destroy P r (snd (call_validate P r s)))"
  by (cases "validate P r (world s)")
     (simp add: release_def lookup_own call_validate_def call_destroy_def)

lemma release_valid:
  "map_of (pools s) key = Some pool \<Longrightarrow> length pool < maxIdle P \<Longrightarrow>
   fst (validate P r (world s)) \<Longrightarrow>
   release P key r s =
     (None, (snd (call_validate P r s))\<lparr>pools := AList.update key (pool @ [r]) (pools s)\<rparr>)"
  by (cases "validate P r (world s)")
     (simp add: release_def lookup_own call_validate_def call_destroy_def)

lemma release_pools:
  "pools (snd (release P key r s)) = pools s \<or>
   (\<exists>pool. map_of (pools s) key = Some pool \<and> length pool < maxIdle P \<and>
      pools (snd (release P key r s)) = AList.update key (pool @ [r]) (pools s))"
  by (cases "validate P r (world s)")
     (auto simp: release_def lookup_def call_validate_def call_destroy_def Let_def
           split: option.splits)

lemma purge_loop_eq:
  "purge_loop P pool s =
     ([], s\<lparr>world := fold (destroy P) (rev pool) (world s),
            calls := calls s @ map Destroy (rev pool)\<rparr>)"
proof (induction pool arbitrary: s rule: rev_induct)
  case Nil
  show ?case by (simp add: purge_loop.simps)
next
  case (snoc x xs)
  show ?case
    by (subst purge_loop.simps) (simp add: snoc.IH call_destroy_def)
qed

lemma purge_eq:
  "map_of (pools s) key \<noteq> None \<or> Object_prototype key = None \<Longrightarrow>
   purge P key s =
     (None,
      s\<lparr>pools := AList.delete key (pools s),
        world := fold (destroy P) (rev (idle key s)) (world s),
        calls := calls s @ map Destroy (rev (idle key s))\<rparr>)"
  by (cases "map_of (pools s) key")
     (simp_all add: purge_def purge_loop_eq idle_def lookup_own lookup_undefined)

lemma purge_inherited:
  "map_of (pools s) key = None \<Longrightarrow> Object_prototype key = Some v \<Longrightarrow>
   purge P key s = (if truthy (inherited_length v) then Some TypeError else None, s)"
  by (simp add: purge_def lookup_inherited delete_absent)

lemma purge_pools [simp]: "pools (snd (purge P key s)) = AList.delete key (pools s)"
proof (cases "map_of (pools s) key \<noteq> None \<or> Object_prototype key = None")
  case True
  then show ?thesis by (simp add: purge_eq)
next
  case False
  then obtain v where "map_of (pools s) key = None" "Object_prototype key = Some v" by auto
  then show ?thesis by (simp add: purge_inherited delete_absent)
qed

text \<open>Purging keys one after another deletes them, up to the first exception.\<close>

lemma purge_each_pools:
  "\<exists>n. pools (snd (purge_each P ks s)) = fold AList.delete (take n ks) (pools s)"
proof (induction ks arbitrary: s)
  case Nil
  show ?case by simp
next
  case (Cons k ks)
  obtain e s' where p: "purge P k s = (e, s')" by (cases "purge P k s")
  then have s': "pools s' = AList.delete k (pools s)"
    using purge_pools[of P k s] by simp
  show ?case
  proof (cases e)
    case None
    from Cons.IH[of s'] obtain n where
      "pools (snd (purge_each P ks s')) = fold AList.delete (take n ks) (pools s')"
      by blast
    then have "pools (snd (purge_each P (k # ks) s)) =
        fold AList.delete (take (Suc n) (k # ks)) (pools s)"
      using p None s' by simp
    then show ?thesis by blast
  next
    case (Some err)
    then have "pools (snd (purge_each P (k # ks) s)) =
        fold AList.delete (take (Suc 0) (k # ks)) (pools s)"
      using p s' by simp
    then show ?thesis by blast
  qed
qed




lemma run_snoc: "run P (ops @ [op]) s = exec P op (run P ops s)"
  by (simp add: run_def)

text \<open>
  Releases to a list with room for them, under a validator that accepts everything, are
  all pushed.
\<close>

lemma releases_fit:
  "\<forall>r w. fst (validate P r w) \<Longrightarrow> map_of (pools s) key = Some pool \<Longrightarrow>
   length pool + length rs \<le> maxIdle P \<Longrightarrow>
   map_of (pools (run P (map (Release key) rs) s)) key = Some (pool @ rs) \<and>
   calls (run P (map (Release key) rs) s) = calls s @ map (\<lambda>r. Validate r True) rs"
proof (induction rs rule: rev_induct)
  case Nil
  then show ?case by (simp add: run_def)
next
  case (snoc r rs)
  let ?t = "run P (map (Release key) rs) s"
  have t: "map_of (pools ?t) key = Some (pool @ rs)"
    "calls ?t = calls s @ map (\<lambda>r. Validate r True) rs"
    using snoc by simp_all
  have l: "length (pool @ rs) < maxIdle P" using snoc.prems(3) by simp
  have v: "fst (validate P r (world ?t))" using snoc.prems(1) by simp
  have "run P (map (Release key) (rs @ [r])) s = snd (release P key r ?t)"
    by (simp add: run_snoc)
  then show ?case
    using release_valid[OF t(1) l v] t(2) v by (simp add: update_conv')
qed

subsection \<open>Two invariants\<close>

lemma bounded_lookup:
  "bounded P s \<Longrightarrow> map_of (pools s) key = Some pool \<Longrightarrow> length pool \<le> maxIdle P"
  by (auto simp: bounded_def list_all_iff dest!: map_of_SomeD)

lemma bounded_idle: "bounded P s \<Longrightarrow> length (idle key s) \<le> maxIdle P"
  by (cases "map_of (pools s) key") (auto simp: idle_def dest: bounded_lookup)

lemma list_all_update:
  "list_all Q al \<Longrightarrow> Q (k, v) \<Longrightarrow> list_all Q (AList.update k v al)"
  by (induction al) auto

lemma list_all_delete: "list_all Q al \<Longrightarrow> list_all Q (AList.delete k al)"
  by (induction al) auto

lemma list_all_fold_delete: "list_all Q al \<Longrightarrow> list_all Q (fold AList.delete ks al)"
  by (induction ks arbitrary: al) (simp_all add: list_all_delete)

lemma bounded_acquire: "bounded P s \<Longrightarrow> bounded P (snd (acquire P key s))"
proof -
  assume b: "bounded P s"
  from acquire_pools[of P key s] show ?thesis
  proof
    assume "pools (snd (acquire P key s)) = pools s"
    with b show ?thesis by (simp add: bounded_def)
  next
    assume "\<exists>keep. pools (snd (acquire P key s)) = AList.update key keep (pools s) \<and>
      length keep \<le> length (idle key s) \<and>
      (map_of (pools s) key \<noteq> None \<or> Object_prototype key = None)"
    then obtain keep where k: "pools (snd (acquire P key s)) = AList.update key keep (pools s)"
      "length keep \<le> length (idle key s)"
      by blast
    have "length keep \<le> maxIdle P" using k(2) bounded_idle[OF b, of key] by simp
    then show ?thesis using b k(1) by (simp add: bounded_def list_all_update)
  qed
qed

lemma bounded_release: "bounded P s \<Longrightarrow> bounded P (snd (release P key r s))"
  using release_pools[of P key r s] by (auto simp: bounded_def list_all_update)

lemma bounded_purge: "bounded P s \<Longrightarrow> bounded P (snd (purge P key s))"
  by (simp add: bounded_def list_all_delete)

lemma bounded_purgeAll: "bounded P s \<Longrightarrow> bounded P (snd (purgeAll P s))"
  using purge_each_pools[of P "own_keys (pools s)" s]
  by (auto simp: bounded_def purgeAll_def list_all_fold_delete)

lemma bounded_exec: "bounded P s \<Longrightarrow> bounded P (exec P op s)"
  by (cases op)
     (simp_all add: bounded_acquire bounded_release bounded_purge bounded_purgeAll)

lemma bounded_init: "bounded P (init w)"
  by (simp add: bounded_def init_def)

lemma reachable_bounded: "reachable P s \<Longrightarrow> bounded P s"
  by (induction rule: reachable.induct) (simp_all add: bounded_init bounded_exec)











subsection \<open>Which keys are known\<close>












subsection \<open>One key's list decides what happens to that key\<close>

lemma lookup_acquire_other:
  "A \<noteq> B \<Longrightarrow> map_of (pools (snd (acquire P A s))) B = map_of (pools s) B"
  using acquire_pools[of P A s] by (auto simp: update_conv')

lemma lookup_release_other:
  "A \<noteq> B \<Longrightarrow> map_of (pools (snd (release P A r s))) B = map_of (pools s) B"
  using release_pools[of P A r s] by (auto simp: update_conv')

lemma lookup_exec_other:
  "A \<noteq> B \<Longrightarrow> op \<in> {Acquire A, Release A r, Purge A, Has A} \<Longrightarrow>
   map_of (pools (exec P op s)) B = map_of (pools s) B"
  by (auto simp: lookup_acquire_other lookup_release_other)

text \<open>
  The loop on the same array from two states with the same world finds the same resource,
  leaves the same array and the same world, and makes the same calls.
\<close>

lemma acquire_loop_frame:
  "world t = world u \<Longrightarrow>
   \<exists>found pool' t' u' new.
     acquire_loop P pool t = (found, pool', t') \<and> acquire_loop P pool u = (found, pool', u') \<and>
     world t' = world u' \<and> calls t' = calls t @ new \<and> calls u' = calls u @ new \<and>
     pools t' = pools t \<and> pools u' = pools u"
proof (induction pool arbitrary: t u rule: rev_induct)
  case Nil
  then show ?case by (simp add: acquire_loop.simps)
next
  case (snoc x xs)
  obtain ok w where v: "validate P x (world u) = (ok, w)"
    by (cases "validate P x (world u)")
  show ?case
  proof (cases ok)
    case True
    with v snoc.prems show ?thesis
      by (simp add: acquire_loop.simps[of P "xs @ [x]"] call_validate_def)
  next
    case False
    let ?t1 = "call_destroy P x (snd (call_validate P x t))"
    let ?u1 = "call_destroy P x (snd (call_validate P x u))"
    have w: "world ?t1 = world ?u1" using snoc.prems by simp
    from snoc.IH[OF w] obtain found pool' t' u' new where
      i: "acquire_loop P xs ?t1 = (found, pool', t')" "acquire_loop P xs ?u1 = (found, pool', u')"
         "world t' = world u'" "calls t' = calls ?t1 @ new" "calls u' = calls ?u1 @ new"
         "pools t' = pools ?t1" "pools u' = pools ?u1"
      by blast
    have a: "acquire_loop P (xs @ [x]) t = (found, pool', t')"
      using i(1) v False snoc.prems
      by (simp add: acquire_loop.simps[of P "xs @ [x]"] call_validate_def)
    have b: "acquire_loop P (xs @ [x]) u = (found, pool', u')"
      using i(2) v False
      by (simp add: acquire_loop.simps[of P "xs @ [x]"] call_validate_def)
    have c: "calls t' = calls t @ (Validate x False # Destroy x # new)"
      "calls u' = calls u @ (Validate x False # Destroy x # new)"
      using i(4,5) v False snoc.prems by simp_all
    have d: "pools t' = pools t" "pools u' = pools u" using i(6,7) by simp_all
    from a b c d i(3) show ?thesis by blast
  qed
qed

lemma release_observe:
  assumes "map_of (pools t) key = map_of (pools u) key" "world t = world u"
  shows "fst (release P key r t) = fst (release P key r u) \<and>
         observe key t (snd (release P key r t)) = observe key u (snd (release P key r u))"
proof -
  have l: "lookup (pools t) key = lookup (pools u) key"
    by (rule lookup_cong[OF assms(1)])
  obtain ok w where v: "validate P r (world u) = (ok, w)"
    by (cases "validate P r (world u)")
  show ?thesis
    using l v assms
    by (cases "lookup (pools u) key")
       (simp_all add: release_def observe_def call_validate_def call_destroy_def update_conv')
qed

lemma acquire_observe:
  assumes "map_of (pools t) key = map_of (pools u) key" "world t = world u"
  shows "fst (acquire P key t) = fst (acquire P key u) \<and>
         observe key t (snd (acquire P key t)) = observe key u (snd (acquire P key u))"
proof (cases "map_of (pools u) key \<noteq> None \<or> Object_prototype key = None")
  case False
  then obtain v where i: "map_of (pools u) key = None" "Object_prototype key = Some v"
    by auto
  then have j: "map_of (pools t) key = None" using assms(1) by simp
  show ?thesis
    using assms
    by (simp add: acquire_inherited[OF i] acquire_inherited[OF j i(2)] observe_def)
next
  case ordu: True
  then have ordt: "map_of (pools t) key \<noteq> None \<or> Object_prototype key = None"
    using assms(1) by simp
  define pool where "pool = idle key u"
  have pt: "idle key t = pool" using assms(1) by (simp add: pool_def idle_def)
  define t0 where "t0 = (if map_of (pools t) key = None
      then t\<lparr>pools := AList.update key [] (pools t)\<rparr> else t)"
  define u0 where "u0 = (if map_of (pools u) key = None
      then u\<lparr>pools := AList.update key [] (pools u)\<rparr> else u)"
  have w0: "world t0 = world u0" "calls t0 = calls t" "calls u0 = calls u"
    using assms by (simp_all add: t0_def u0_def)
  from acquire_loop_frame[OF w0(1), of P pool] obtain found pool' t1 u1 new where
    l: "acquire_loop P pool t0 = (found, pool', t1)" "acquire_loop P pool u0 = (found, pool', u1)"
       "world t1 = world u1" "calls t1 = calls t0 @ new" "calls u1 = calls u0 @ new"
    by blast
  define t2 where "t2 = t1\<lparr>pools := AList.update key pool' (pools t1)\<rparr>"
  define u2 where "u2 = u1\<lparr>pools := AList.update key pool' (pools u1)\<rparr>"
  have at: "acquire P key t =
      (case found of Some resource \<Rightarrow> (Inr resource, t2) | None \<Rightarrow> call_create P key t2)"
    using l(1) unfolding acquire_array[OF ordt] pt t0_def t2_def by (simp add: Let_def)
  have au: "acquire P key u =
      (case found of Some resource \<Rightarrow> (Inr resource, u2) | None \<Rightarrow> call_create P key u2)"
    using l(2) unfolding acquire_array[OF ordu] pool_def u0_def u2_def by (simp add: Let_def)
  have o: "map_of (pools t2) key = map_of (pools u2) key" "world t2 = world u2"
    "calls t2 = calls t @ new" "calls u2 = calls u @ new"
    using l(3,4,5) w0 by (simp_all add: t2_def u2_def update_conv')
  show ?thesis
  proof (cases found)
    case None
    then show ?thesis using at au o by (simp add: observe_def)
  next
    case (Some r)
    then show ?thesis using at au o by (simp add: observe_def)
  qed
qed

section \<open>The claims\<close>




text \<open>
  Claim C2, as amended. For every key whose idle list exists, \<open>release(key, resource)\<close>
  calls \<open>destroy(resource)\<close> and leaves the list unchanged when the list holds at least
  \<open>maxIdle\<close> resources (the validator is then not called) or \<open>validate(resource)\<close> is
  false, and otherwise pushes the resource onto the list. Consequently, with
  \<open>maxIdle = N\<close> and a validator that is always true, releasing \<open>N + 1\<close> resources to a key
  whose idle list is empty makes exactly one call of \<open>destroy\<close>, for the last of them,
  and leaves the \<open>N\<close> others idle. The list has to be empty before: every resource that is
  idle already costs one more of the releases its place.
\<close>

theorem release_keeps_or_destroys:
  assumes "map_of (pools s) key = Some pool"
  shows "(if maxIdle P \<le> length pool then
            release P key r s =
              (None, s\<lparr>world := destroy P r (world s), calls := calls s @ [Destroy r]\<rparr>)
          else if \<not> fst (validate P r (world s)) then
            release P key r s =
              (None, s\<lparr>world := destroy P r (snd (validate P r (world s))),
                      calls := calls s @ [Validate r False, Destroy r]\<rparr>)
          else
            release P key r s =
              (None, s\<lparr>pools := AList.update key (pool @ [r]) (pools s),
                      world := snd (validate P r (world s)),
                      calls := calls s @ [Validate r True]\<rparr>)) \<and>
         (pool = [] \<and> (\<forall>r w. fst (validate P r w)) \<and> length rs = Suc (maxIdle P) \<longrightarrow>
            map_of (pools (run P (map (Release key) rs) s)) key = Some (butlast rs) \<and>
            length (butlast rs) = maxIdle P \<and>
            calls (run P (map (Release key) rs) s) =
              calls s @ map (\<lambda>r. Validate r True) (butlast rs) @ [Destroy (last rs)])"
proof (rule conjI)
  show "if maxIdle P \<le> length pool then
            release P key r s =
              (None, s\<lparr>world := destroy P r (world s), calls := calls s @ [Destroy r]\<rparr>)
          else if \<not> fst (validate P r (world s)) then
            release P key r s =
              (None, s\<lparr>world := destroy P r (snd (validate P r (world s))),
                      calls := calls s @ [Validate r False, Destroy r]\<rparr>)
          else
            release P key r s =
              (None, s\<lparr>pools := AList.update key (pool @ [r]) (pools s),
                      world := snd (validate P r (world s)),
                      calls := calls s @ [Validate r True]\<rparr>)"
    using assms
    by (cases "validate P r (world s)")
       (simp add: release_def lookup_own call_validate_def call_destroy_def)
next
  show "pool = [] \<and> (\<forall>r w. fst (validate P r w)) \<and> length rs = Suc (maxIdle P) \<longrightarrow>
            map_of (pools (run P (map (Release key) rs) s)) key = Some (butlast rs) \<and>
            length (butlast rs) = maxIdle P \<and>
            calls (run P (map (Release key) rs) s) =
              calls s @ map (\<lambda>r. Validate r True) (butlast rs) @ [Destroy (last rs)]"
  proof
    assume h: "pool = [] \<and> (\<forall>r w. fst (validate P r w)) \<and> length rs = Suc (maxIdle P)"
    then have ne: "rs \<noteq> []" by auto
    let ?t = "run P (map (Release key) (butlast rs)) s"
    have e: "map_of (pools s) key = Some []" using assms h by simp
    have f: "length [] + length (butlast rs) \<le> maxIdle P" using h by simp
    have v: "\<forall>r w. fst (validate P r w)" using h by simp
    from releases_fit[OF v e f]
    have t: "map_of (pools ?t) key = Some (butlast rs)"
      "calls ?t = calls s @ map (\<lambda>r. Validate r True) (butlast rs)"
      by simp_all
    have full: "maxIdle P \<le> length (butlast rs)" using h by simp
    have "map (Release key) rs = map (Release key) (butlast rs) @ [Release key (last rs)]"
      using ne by (metis append_butlast_last_id list.simps(8,9) map_append)
    then have "run P (map (Release key) rs) s = snd (release P key (last rs) ?t)"
      by (simp add: run_snoc)
    then have "run P (map (Release key) rs) s = call_destroy P (last rs) ?t"
      using release_full[OF t(1) full] by simp
    then show "map_of (pools (run P (map (Release key) rs) s)) key = Some (butlast rs) \<and>
            length (butlast rs) = maxIdle P \<and>
            calls (run P (map (Release key) rs) s) =
              calls s @ map (\<lambda>r. Validate r True) (butlast rs) @ [Destroy (last rs)]"
      using t h by simp
  qed
qed

text \<open>With \<open>maxIdle = 1\<close>: resources 0 and 1 are released to the fresh list of key \<open>a\<close>.\<close>

theorem release_keeps_or_destroys_witness:
  "map_of (pools (snd (acquire (counter_pool 1) ''a'' (init 0)))) ''a'' = Some [] \<and>
   (\<forall>r w. fst (validate (counter_pool 1) r w)) \<and>
   length [0, 1 :: nat] = Suc (maxIdle (counter_pool 1)) \<and>
   map_of (pools (run (counter_pool 1) (map (Release ''a'') [0, 1])
     (snd (acquire (counter_pool 1) ''a'' (init 0))))) ''a'' = Some [0] \<and>
   calls (run (counter_pool 1) (map (Release ''a'') [0, 1])
     (snd (acquire (counter_pool 1) ''a'' (init 0)))) =
     calls (snd (acquire (counter_pool 1) ''a'' (init 0))) @ [Validate 0 True, Destroy 1]"
proof -
  have h: "map_of (pools (snd (acquire (counter_pool 1) ''a'' (init 0)))) ''a'' = Some []"
    by (simp add: eval_defs counter_pool_def)
  have v: "\<forall>r w. fst (validate (counter_pool 1) r w)"
    by (simp add: counter_pool_def default_validate_def)
  have n: "length [0, 1 :: nat] = Suc (maxIdle (counter_pool 1))"
    by (simp add: counter_pool_def)
  from release_keeps_or_destroys[OF h, of "counter_pool 1" 0 "[0, 1]"] v n
  show ?thesis using h by simp
qed

text \<open>
  With \<open>maxIdle = 1\<close> and the validator that is always true: three resources are acquired
  for key \<open>a\<close> and resource 0 is released, which leaves it idle. Releasing the two other
  resources, \<open>N + 1\<close> distinct ones, then makes two calls of \<open>destroy\<close>, not one.
\<close>

theorem release_overflow_counterexample:
  "run (counter_pool 1) [Acquire ''a'', Acquire ''a'', Acquire ''a'', Release ''a'' 0] (init 0) =
     \<lparr>pools = [(''a'', [0])], world = 3,
      calls = [Create ''a'' (Inr 0), Create ''a'' (Inr 1), Create ''a'' (Inr 2),
               Validate 0 True]\<rparr> \<and>
   run (counter_pool 1) (map (Release ''a'') [1, 2])
     (run (counter_pool 1) [Acquire ''a'', Acquire ''a'', Acquire ''a'', Release ''a'' 0]
       (init 0)) =
     \<lparr>pools = [(''a'', [0])], world = 3,
      calls = [Create ''a'' (Inr 0), Create ''a'' (Inr 1), Create ''a'' (Inr 2),
               Validate 0 True, Destroy 1, Destroy 2]\<rparr>"
  by (simp add: eval_defs counter_pool_def)

text \<open>
  Claim C3. In every state that a pool reaches from its construction by the operations
  \<open>acquire\<close>, \<open>release\<close>, \<open>purge\<close>, \<open>purgeAll\<close> and \<open>has\<close>, after any one more of these
  operations every key present in the mapping has an idle list of at most \<open>maxIdle\<close>
  resources.
\<close>

theorem idle_lists_never_exceed_maxIdle:
  "reachable P s \<Longrightarrow> map_of (pools (exec P op s)) key = Some pool \<Longrightarrow>
   length pool \<le> maxIdle P"
  by (blast intro: bounded_lookup bounded_exec reachable_bounded)

text \<open>With \<open>maxIdle = 1\<close>: after an acquire, the release of the resource fills the list.\<close>

theorem idle_lists_never_exceed_maxIdle_witness:
  "reachable (counter_pool 1) (exec (counter_pool 1) (Acquire ''a'') (init 0)) \<and>
   map_of (pools (exec (counter_pool 1) (Release ''a'' 0)
     (exec (counter_pool 1) (Acquire ''a'') (init 0)))) ''a'' = Some [0] \<and>
   length [0 :: nat] \<le> maxIdle (counter_pool 1)"
proof -
  have r: "reachable (counter_pool 1) (exec (counter_pool 1) (Acquire ''a'') (init 0))"
    by (rule reachable_exec[OF reachable_init])
  have m: "map_of (pools (exec (counter_pool 1) (Release ''a'' 0)
     (exec (counter_pool 1) (Acquire ''a'') (init 0)))) ''a'' = Some [0]"
    by (simp add: eval_defs counter_pool_def)
  from idle_lists_never_exceed_maxIdle[OF r m] r m show ?thesis by simp
qed

text \<open>
  Claim C4, as amended. In a pool with \<open>maxIdle\<close> at least 1, for every key \<open>k\<close> that is
  not the name of a property inherited from \<open>Object.prototype\<close>: if \<open>acquire(k)\<close> returns
  the resource \<open>R\<close> and the caller then invokes the release callback for \<open>k\<close> and \<open>R\<close>,
  under a validator that returns true for \<open>R\<close>, then the release returns and the next
  \<open>acquire(k)\<close> returns \<open>R\<close> itself; from the end of the first acquire on, the only calls
  of callbacks are the two validations of \<open>R\<close>, so \<open>create\<close> is not called again.
\<close>

theorem released_resource_is_reused:
  assumes "reachable P s" "0 < maxIdle P" "Object_prototype k = None"
    "fst (acquire P k s) = Inr R" "\<forall>w. fst (validate P R w)"
  shows "fst (release P k R (snd (acquire P k s))) = None \<and>
         fst (acquire P k (snd (release P k R (snd (acquire P k s))))) = Inr R \<and>
         calls (snd (acquire P k (snd (release P k R (snd (acquire P k s)))))) =
           calls (snd (acquire P k s)) @ [Validate R True, Validate R True]"
proof -
  let ?s1 = "snd (acquire P k s)"
  let ?s2 = "snd (release P k R ?s1)"
  have ord: "map_of (pools s) k \<noteq> None \<or> Object_prototype k = None"
    using assms(3) by simp
  have b: "length (idle k s) \<le> maxIdle P"
    using assms(1) by (simp add: reachable_bounded bounded_idle)
  have "\<exists>keep. pools ?s1 = AList.update k keep (pools s) \<and> length keep < maxIdle P"
    using acquire_cases[OF ord, of P] b assms(2) by auto
  then obtain keep where k: "pools ?s1 = AList.update k keep (pools s)"
    "length keep < maxIdle P"
    by blast
  have l1: "map_of (pools ?s1) k = Some keep" using k(1) by (simp add: update_conv')
  have v1: "fst (validate P R (world ?s1))" using assms(5) by simp
  have r: "release P k R ?s1 =
      (None, (snd (call_validate P R ?s1))\<lparr>pools := AList.update k (keep @ [R]) (pools ?s1)\<rparr>)"
    by (rule release_valid[OF l1 k(2) v1])
  have l2: "map_of (pools ?s2) k = Some (keep @ [R])" by (simp add: r update_conv')
  have v2: "fst (validate P R (world ?s2))" using assms(5) by simp
  have c2: "calls ?s2 = calls ?s1 @ [Validate R True]" using v1 by (simp add: r)
  show ?thesis
    using acquire_top_valid[OF l2 v2] v2 c2 r by simp
qed

text \<open>With \<open>maxIdle = 1\<close>, from the new pool: resource 0 is created once and reused.\<close>

theorem released_resource_is_reused_witness:
  "reachable (counter_pool 1) (init 0) \<and> 0 < maxIdle (counter_pool 1) \<and>
   Object_prototype ''a'' = None \<and>
   fst (acquire (counter_pool 1) ''a'' (init 0)) = Inr 0 \<and>
   (\<forall>w. fst (validate (counter_pool 1) 0 w)) \<and>
   fst (acquire (counter_pool 1) ''a''
     (snd (release (counter_pool 1) ''a'' 0
       (snd (acquire (counter_pool 1) ''a'' (init 0)))))) = Inr 0 \<and>
   calls (snd (acquire (counter_pool 1) ''a''
     (snd (release (counter_pool 1) ''a'' 0
       (snd (acquire (counter_pool 1) ''a'' (init 0))))))) =
     [Create ''a'' (Inr 0), Validate 0 True, Validate 0 True]"
proof -
  have r: "reachable (counter_pool 1) (init 0)" by (rule reachable_init)
  have m: "0 < maxIdle (counter_pool 1)" by (simp add: counter_pool_def)
  have o: "Object_prototype ''a'' = None" by (simp add: Object_prototype_def)
  have a: "fst (acquire (counter_pool 1) ''a'' (init 0)) = Inr 0"
    by (simp add: eval_defs counter_pool_def)
  have v: "\<forall>w. fst (validate (counter_pool 1) 0 w)"
    by (simp add: counter_pool_def default_validate_def)
  have c: "calls (snd (acquire (counter_pool 1) ''a'' (init 0))) = [Create ''a'' (Inr 0)]"
    by (simp add: eval_defs counter_pool_def)
  from released_resource_is_reused[OF r m o a v] r m o a v c show ?thesis by simp
qed

text \<open>
  With \<open>maxIdle = 0\<close>, from the new pool: \<open>acquire\<close> returns resource 0, its release destroys
  it, since no list has room for it, and the next \<open>acquire\<close> calls \<open>create\<close> a second time
  and returns resource 1. With \<open>maxIdle = 1\<close> and the key \<open>toString\<close>: \<open>acquire\<close> creates
  resource 0 and no list; its release validates it and then throws a \<open>TypeError\<close> at
  \<open>pool.push\<close>, the pool being the inherited function; the next \<open>acquire\<close> calls \<open>create\<close> a
  second time and returns resource 1.
\<close>

theorem released_resource_is_reused_counterexample:
  "maxIdle (counter_pool 0) = 0 \<and>
   validate (counter_pool 0) 0 1 = (True, 1) \<and>
   acquire (counter_pool 0) ''a'' (init 0) =
     (Inr 0, \<lparr>pools = [(''a'', [])], world = 1, calls = [Create ''a'' (Inr 0)]\<rparr>) \<and>
   acquire (counter_pool 0) ''a''
     (snd (release (counter_pool 0) ''a'' 0 (snd (acquire (counter_pool 0) ''a'' (init 0))))) =
     (Inr 1, \<lparr>pools = [(''a'', [])], world = 2,
             calls = [Create ''a'' (Inr 0), Destroy 0, Create ''a'' (Inr 1)]\<rparr>) \<and>
   maxIdle (counter_pool 1) = 1 \<and>
   acquire (counter_pool 1) ''toString'' (init 0) =
     (Inr 0, \<lparr>pools = [], world = 1, calls = [Create ''toString'' (Inr 0)]\<rparr>) \<and>
   release (counter_pool 1) ''toString'' 0
     (snd (acquire (counter_pool 1) ''toString'' (init 0))) =
     (Some TypeError,
      \<lparr>pools = [], world = 1, calls = [Create ''toString'' (Inr 0), Validate 0 True]\<rparr>) \<and>
   acquire (counter_pool 1) ''toString''
     (snd (release (counter_pool 1) ''toString'' 0
       (snd (acquire (counter_pool 1) ''toString'' (init 0))))) =
     (Inr 1, \<lparr>pools = [], world = 2,
             calls = [Create ''toString'' (Inr 0), Validate 0 True,
                      Create ''toString'' (Inr 1)]\<rparr>)"
  by (simp add: eval_defs counter_pool_def)












text \<open>
  Claim C9. For distinct keys \<open>A\<close> and \<open>B\<close>, an \<open>acquire\<close>, \<open>release\<close>, \<open>purge\<close> or \<open>has\<close> with
  key \<open>A\<close> leaves the idle list of \<open>B\<close> and the presence of \<open>B\<close> in the mapping as they were,
  and with them what the pool does for \<open>B\<close>: from any world of the callbacks, a release to
  \<open>B\<close> and an acquire for \<open>B\<close> make the same calls, return or throw the same and leave
  the same list for \<open>B\<close> after the operation as before it.
\<close>

theorem other_keys_untouched:
  assumes "A \<noteq> B" "op \<in> {Acquire A, Release A r, Purge A, Has A}"
  shows "map_of (pools (exec P op s)) B = map_of (pools s) B \<and>
         has B (exec P op s) = has B s \<and>
         fst (release P B r' ((exec P op s)\<lparr>world := w\<rparr>)) =
           fst (release P B r' (s\<lparr>world := w\<rparr>)) \<and>
         observe B ((exec P op s)\<lparr>world := w\<rparr>)
             (snd (release P B r' ((exec P op s)\<lparr>world := w\<rparr>))) =
           observe B (s\<lparr>world := w\<rparr>) (snd (release P B r' (s\<lparr>world := w\<rparr>))) \<and>
         fst (acquire P B ((exec P op s)\<lparr>world := w\<rparr>)) =
           fst (acquire P B (s\<lparr>world := w\<rparr>)) \<and>
         observe B ((exec P op s)\<lparr>world := w\<rparr>)
             (snd (acquire P B ((exec P op s)\<lparr>world := w\<rparr>))) =
           observe B (s\<lparr>world := w\<rparr>) (snd (acquire P B (s\<lparr>world := w\<rparr>)))"
proof -
  have l: "map_of (pools (exec P op s)) B = map_of (pools s) B"
    by (rule lookup_exec_other[OF assms])
  then have h: "has B (exec P op s) = has B s" by (simp add: has_map_of)
  have m: "map_of (pools ((exec P op s)\<lparr>world := w\<rparr>)) B = map_of (pools (s\<lparr>world := w\<rparr>)) B"
    "world ((exec P op s)\<lparr>world := w\<rparr>) = world (s\<lparr>world := w\<rparr>)"
    using l by simp_all
  from l h release_observe[OF m, of P r'] acquire_observe[OF m, of P]
  show ?thesis by blast
qed

text \<open>Key \<open>b\<close> holds resource 1 while key \<open>a\<close> is purged.\<close>

theorem other_keys_untouched_witness:
  "''a'' \<noteq> ''b'' \<and>
   Purge ''a'' \<in> {Acquire ''a'', Release ''a'' (0 :: nat), Purge ''a'', Has ''a''} \<and>
   map_of (pools (exec (counter_pool 2) (Purge ''a'')
     (run (counter_pool 2) [Acquire ''a'', Acquire ''b'', Release ''b'' 1] (init 0)))) ''b'' =
     Some [1] \<and>
   has ''b'' (exec (counter_pool 2) (Purge ''a'')
     (run (counter_pool 2) [Acquire ''a'', Acquire ''b'', Release ''b'' 1] (init 0)))"
proof -
  have d: "''a'' \<noteq> ''b''" by simp
  have o: "Purge ''a'' \<in> {Acquire ''a'', Release ''a'' (0 :: nat), Purge ''a'', Has ''a''}"
    by simp
  have m: "map_of (pools (run (counter_pool 2)
      [Acquire ''a'', Acquire ''b'', Release ''b'' 1] (init 0))) ''b'' = Some [1]"
    by (simp add: eval_defs counter_pool_def)
  have h: "has ''b'' (run (counter_pool 2)
      [Acquire ''a'', Acquire ''b'', Release ''b'' 1] (init 0))"
    by (simp add: eval_defs counter_pool_def)
  from other_keys_untouched[OF d o, of "counter_pool 2"
      "run (counter_pool 2) [Acquire ''a'', Acquire ''b'', Release ''b'' 1] (init 0)"] d o m h
  show ?thesis by simp
qed



end
